theory Spec2Isabelle
  imports Main
begin

section \<open>A shallow embedding of \<^verbatim>\<open>rsa.py\<close>\<close>

text \<open>
  The program is a textbook RSA implementation over Python's unbounded integers, which
  are modelled by \<^typ>\<open>int\<close>: Python's \<^verbatim>\<open>//\<close> and \<^verbatim>\<open>%\<close> round towards minus infinity, as
  \<open>div\<close> and \<open>mod\<close> on \<^typ>\<open>int\<close> do. A function that can raise returns \<open>error + 'a\<close>, with
  \<open>Inl\<close> for the exception. The \<^verbatim>\<open>print\<close> calls and the \<^verbatim>\<open>show_steps\<close> flag of
  \<^verbatim>\<open>ex_gcd\<close>, which only selects what is printed, are left out.
\<close>

subsection \<open>Exceptions and list subscripts\<close>

text \<open>
  \<open>InvalidRangeError\<close> is the \<^verbatim>\<open>Exception("Prime must be generated in the range a to b
  where a >= 2 and b > a")\<close> that \<^verbatim>\<open>gen_prime\<close> raises (line 92). \<open>IndexError\<close> is raised by a
  list subscript out of range, \<open>ZeroDivisionError\<close> by \<^verbatim>\<open>//\<close> and \<^verbatim>\<open>%\<close> with a zero divisor,
  and \<open>TypeError\<close> by unpacking \<^verbatim>\<open>None\<close> into two names (line 172) and by \<^verbatim>\<open>int()\<close> of
  the complex number that \<^verbatim>\<open>x**0.5\<close> is for a negative \<^verbatim>\<open>x\<close>.
\<close>

datatype error = InvalidRangeError | IndexError | TypeError | ZeroDivisionError

text \<open>Python's \<^verbatim>\<open>xs[i]\<close>: a negative index counts from the end of the list.\<close>

definition getitem :: "'a list \<Rightarrow> int \<Rightarrow> error + 'a" where
  "getitem xs i =
     (if 0 \<le> i \<and> i < int (length xs) then Inr (xs ! nat i)
      else if i < 0 \<and> - int (length xs) \<le> i then Inr (xs ! nat (int (length xs) + i))
      else Inl IndexError)"

text \<open>Python's \<^verbatim>\<open>xs[i] = v\<close>.\<close>

definition setitem :: "'a list \<Rightarrow> int \<Rightarrow> 'a \<Rightarrow> error + 'a list" where
  "setitem xs i v =
     (if 0 \<le> i \<and> i < int (length xs) then Inr (xs[nat i := v])
      else if i < 0 \<and> - int (length xs) \<le> i then Inr (xs[nat (int (length xs) + i) := v])
      else Inl IndexError)"

definition floordiv :: "int \<Rightarrow> int \<Rightarrow> error + int" where
  "floordiv x y = (if y = 0 then Inl ZeroDivisionError else Inr (x div y))"

definition pymod :: "int \<Rightarrow> int \<Rightarrow> error + int" where
  "pymod x y = (if y = 0 then Inl ZeroDivisionError else Inr (x mod y))"

subsection \<open>Square roots\<close>

text \<open>
  The source computes its trial-division bounds as \<^verbatim>\<open>int(x**0.5 + 1)\<close> in double
  precision. The model takes the exact value: \<open>floor_sqrt x\<close> is the largest \<open>r\<close> with
  \<open>r * r \<le> x\<close>, found by counting up, and the bound is \<open>floor_sqrt x + 1\<close>. The rounding of
  the floating point computation on large arguments, and its overflow on integers beyond
  the range of a double, are outside the model. For a negative \<^verbatim>\<open>x\<close> Python's \<^verbatim>\<open>x**0.5\<close> is a
  complex number and \<^verbatim>\<open>int()\<close> raises TypeError.
\<close>

function floor_sqrt_loop :: "int \<Rightarrow> int \<Rightarrow> int" where
  "floor_sqrt_loop r x =
     (if 0 \<le> r \<and> (r + 1) * (r + 1) \<le> x then floor_sqrt_loop (r + 1) x else r)"
  by pat_completeness auto
termination
proof (relation "measure (\<lambda>(r, x). nat (x - r))")
  show "wf (measure (\<lambda>(r, x). nat (x - r)))"
    by simp
next
  fix r x :: int
  assume a: "0 \<le> r \<and> (r + 1) * (r + 1) \<le> x"
  then have "r + 1 \<le> (r + 1) * (r + 1)"
    by (simp add: mult_le_cancel_left1)
  with a have "r < x"
    by linarith
  then show "((r + 1, x), (r, x)) \<in> measure (\<lambda>(r, x). nat (x - r))"
    by simp
qed

declare floor_sqrt_loop.simps [simp del]

definition floor_sqrt :: "int \<Rightarrow> int" where
  "floor_sqrt x = floor_sqrt_loop 0 x"

definition sqrt_bound :: "int \<Rightarrow> error + int" where
  "sqrt_bound x = (if x < 0 then Inl TypeError else Inr (floor_sqrt x + 1))"

subsection \<open>\<^verbatim>\<open>ex_gcd\<close> (lines 23 to 72)\<close>

text \<open>The loop \<^verbatim>\<open>while vals[-1] != 0: vals.append(vals[-2] % vals[-1])\<close>.\<close>

function rem_loop :: "int list \<Rightarrow> error + int list" where
  "rem_loop vals =
     (case getitem vals (- 1) of
        Inl err \<Rightarrow> Inl err
      | Inr x \<Rightarrow>
          if x \<noteq> 0 then
            (case getitem vals (- 2) of
               Inl err \<Rightarrow> Inl err
             | Inr y \<Rightarrow> rem_loop (vals @ [y mod x]))
          else Inr vals)"
  by pat_completeness auto
termination
proof (relation "measure (\<lambda>vals. nat \<bar>last vals\<bar>)")
  show "wf (measure (\<lambda>vals. nat \<bar>last vals\<bar>))"
    by simp
next
  fix vals :: "int list" and x y :: int
  assume gx: "getitem vals (- 1) = Inr x" and nz: "x \<noteq> 0"
  from gx have ne: "vals \<noteq> []"
    by (auto simp: getitem_def)
  have "nat (int (length vals) + - 1) = length vals - 1"
    by linarith
  with gx ne have "x = last vals"
    by (simp add: getitem_def last_conv_nth split: if_splits)
  moreover have "\<bar>y mod x\<bar> < \<bar>x\<bar>"
    using nz by (simp add: abs_mod_less)
  ultimately show "(vals @ [y mod x], vals) \<in> measure (\<lambda>vals. nat \<bar>last vals\<bar>)"
    by simp
qed

declare rem_loop.simps [simp del]

text \<open>
  The back-substitution loop \<^verbatim>\<open>for i in range(len(vals)-2, 1, -1)\<close> (lines 49 to 57); the
  new \<^verbatim>\<open>t\<close> is \<^verbatim>\<open>s + t*nt\<close> and the new \<^verbatim>\<open>s\<close> is the old \<^verbatim>\<open>t\<close>.
\<close>

function back_sub :: "int list \<Rightarrow> int \<Rightarrow> int \<Rightarrow> int \<Rightarrow> error + int \<times> int" where
  "back_sub vals i s t =
     (if i > 1 then
        (case getitem vals (i - 2) of
           Inl err \<Rightarrow> Inl err
         | Inr x \<Rightarrow>
             (case getitem vals (i - 1) of
                Inl err \<Rightarrow> Inl err
              | Inr y \<Rightarrow>
                  (case floordiv x y of
                     Inl err \<Rightarrow> Inl err
                   | Inr quot \<Rightarrow> back_sub vals (i - 1) t (s + t * (- quot)))))
      else Inr (s, t))"
  by pat_completeness auto
termination
  by (relation "measure (\<lambda>(vals, i, s, t). nat i)") auto

declare back_sub.simps [simp del]

text \<open>
  \<open>a0\<close> and \<open>b0\<close> are the arguments; \<open>a\<close> and \<open>b\<close> are the source's \<^verbatim>\<open>a\<close> and \<^verbatim>\<open>b\<close> after
  the swap of lines 28 to 32. \<^verbatim>\<open>vals[:-1]\<close> is \<open>butlast\<close>.
\<close>

definition ex_gcd :: "int \<Rightarrow> int \<Rightarrow> error + int \<times> int" where
  "ex_gcd a0 b0 =
     (let did_swap = (b0 > a0);
          a = (if did_swap then b0 else a0);
          b = (if did_swap then a0 else b0)
      in case rem_loop [a, b] of
           Inl err \<Rightarrow> Inl err
         | Inr vals0 \<Rightarrow>
             (let vals = butlast vals0
              in case getitem vals (- 3) of
                   Inl err \<Rightarrow> Inl err
                 | Inr x \<Rightarrow>
                     (case getitem vals (- 2) of
                        Inl err \<Rightarrow> Inl err
                      | Inr y \<Rightarrow>
                          (case floordiv x y of
                             Inl err \<Rightarrow> Inl err
                           | Inr quot \<Rightarrow>
                               (case back_sub vals (int (length vals) - 2) 1 (- quot) of
                                  Inl err \<Rightarrow> Inl err
                                | Inr (s, t) \<Rightarrow>
                                    (case getitem vals (- 1) of
                                       Inl err \<Rightarrow> Inl err
                                     | Inr g \<Rightarrow>
                                         if did_swap then
                                           (case pymod t a of
                                              Inl err \<Rightarrow> Inl err
                                            | Inr res \<Rightarrow> Inr (g, res))
                                         else
                                           (case pymod s b of
                                              Inl err \<Rightarrow> Inl err
                                            | Inr res \<Rightarrow> Inr (g, res))))))))"

subsection \<open>\<^verbatim>\<open>dual_factor\<close> (lines 79 to 84)\<close>




subsection \<open>\<^verbatim>\<open>gen_prime\<close> (lines 90 to 111)\<close>

text \<open>
  The innermost loop \<^verbatim>\<open>for q in range(p, end+1, d): is_prime[q-start] = False\<close>. The step
  \<open>d\<close> comes from \<^verbatim>\<open>range(2, ...)\<close> and is at least 2.
\<close>

function mark_multiples :: "int \<Rightarrow> int \<Rightarrow> int \<Rightarrow> int \<Rightarrow> bool list \<Rightarrow> error + bool list" where
  "mark_multiples q end d start is_prime =
     (if 0 < d \<and> q < end + 1 then
        (case setitem is_prime (q - start) False of
           Inl err \<Rightarrow> Inl err
         | Inr is_prime' \<Rightarrow> mark_multiples (q + d) end d start is_prime')
      else Inr is_prime)"
  by pat_completeness auto
termination
  by (relation "measure (\<lambda>(q, end, d, start, is_prime). nat (end + 1 - q))") auto

declare mark_multiples.simps [simp del]

text \<open>The loop \<^verbatim>\<open>for p in range(start, end+1): if p % d == 0: ...\<close>.\<close>

function sieve_window :: "int \<Rightarrow> int \<Rightarrow> int \<Rightarrow> int \<Rightarrow> bool list \<Rightarrow> error + bool list" where
  "sieve_window p end d start is_prime =
     (if p < end + 1 then
        (if p mod d = 0 then
           (case mark_multiples p end d start is_prime of
              Inl err \<Rightarrow> Inl err
            | Inr is_prime' \<Rightarrow> sieve_window (p + 1) end d start is_prime')
         else sieve_window (p + 1) end d start is_prime)
      else Inr is_prime)"
  by pat_completeness auto
termination
  by (relation "measure (\<lambda>(p, end, d, start, is_prime). nat (end + 1 - p))") auto

declare sieve_window.simps [simp del]

text \<open>The loop \<^verbatim>\<open>for d in range(2, int(end**0.5 + 1))\<close>, entered with \<open>d = 2\<close>.\<close>

function sieve :: "int \<Rightarrow> int \<Rightarrow> int \<Rightarrow> int \<Rightarrow> bool list \<Rightarrow> error + bool list" where
  "sieve d stop start end is_prime =
     (if d < stop then
        (case sieve_window start end d start is_prime of
           Inl err \<Rightarrow> Inl err
         | Inr is_prime' \<Rightarrow> sieve (d + 1) stop start end is_prime')
      else Inr is_prime)"
  by pat_completeness auto
termination
  by (relation "measure (\<lambda>(d, stop, start, end, is_prime). nat (stop - d))") auto

declare sieve.simps [simp del]

text \<open>The loop \<^verbatim>\<open>for i in range(0, len): if is_prime[i]: return start + i\<close>.\<close>

function first_unmarked :: "int \<Rightarrow> int \<Rightarrow> int \<Rightarrow> bool list \<Rightarrow> error + int option" where
  "first_unmarked i len start is_prime =
     (if i < len then
        (case getitem is_prime i of
           Inl err \<Rightarrow> Inl err
         | Inr unmarked \<Rightarrow>
             if unmarked then Inr (Some (start + i))
             else first_unmarked (i + 1) len start is_prime)
      else Inr None)"
  by pat_completeness auto
termination
  by (relation "measure (\<lambda>(i, len, start, is_prime). nat (len - i))") auto

declare first_unmarked.simps [simp del]

text \<open>
  One round of the \<^verbatim>\<open>while True\<close> loop once \<^verbatim>\<open>start\<close> and \<^verbatim>\<open>end\<close> are computed
  (lines 100 to 111): \<open>Some p\<close> is the \<^verbatim>\<open>return start + i\<close>, and \<open>None\<close> says that the
  round found no unmarked entry, so that the loop goes on. \<^verbatim>\<open>[True]*len\<close> is the empty
  list when \<^verbatim>\<open>len\<close> is not positive.
\<close>

definition window_prime :: "int \<Rightarrow> int \<Rightarrow> error + int option" where
  "window_prime start end =
     (let len = end - start + 1;
          is_prime = replicate (nat len) True
      in case sqrt_bound end of
           Inl err \<Rightarrow> Inl err
         | Inr stop \<Rightarrow>
             (case sieve 2 stop start end is_prime of
                Inl err \<Rightarrow> Inl err
              | Inr is_prime' \<Rightarrow> first_unmarked 0 len start is_prime'))"

text \<open>
  The \<^verbatim>\<open>while True\<close> loop. The results of \<^verbatim>\<open>random.randint(a, b)\<close> are the list of draws:
  each round takes the next one, and a call that returns hands back the draws it did not
  use. \<open>None\<close> says that the loop has not returned when the draws are used up.
\<close>

fun gen_prime_loop :: "int \<Rightarrow> int \<Rightarrow> int list \<Rightarrow> (error + int \<times> int list) option" where
  "gen_prime_loop a b [] = None"
| "gen_prime_loop a b (midpoint # draws) =
     (let start = max a (midpoint - 50);
          end = min b (midpoint + 50)
      in case window_prime start end of
           Inl err \<Rightarrow> Some (Inl err)
         | Inr (Some p) \<Rightarrow> Some (Inr (p, draws))
         | Inr None \<Rightarrow> gen_prime_loop a b draws)"

definition gen_prime :: "int \<Rightarrow> int \<Rightarrow> int list \<Rightarrow> (error + int \<times> int list) option" where
  "gen_prime a b draws =
     (if a < 2 \<or> b < a then Some (Inl InvalidRangeError) else gen_prime_loop a b draws)"

subsection \<open>\<^verbatim>\<open>pow\<close>, \<^verbatim>\<open>encrypt\<close> and \<^verbatim>\<open>decrypt\<close> (lines 114 to 164)\<close>

function pow_loop :: "int \<Rightarrow> int \<Rightarrow> int \<Rightarrow> int \<Rightarrow> error + int" where
  "pow_loop ret a b N =
     (if b > 0 then
        (if N = 0 then Inl ZeroDivisionError
         else pow_loop (if b mod 2 = 1 then ret * a mod N else ret) (a * a mod N) (b div 2) N)
      else Inr ret)"
  by pat_completeness auto
termination
  by (relation "measure (\<lambda>(ret, a, b, N). nat b)") auto

declare pow_loop.simps [simp del]

definition pow :: "int \<Rightarrow> int \<Rightarrow> int \<Rightarrow> error + int" where
  "pow a b N = pow_loop 1 a b N"

definition encrypt :: "int \<Rightarrow> int \<Rightarrow> int \<Rightarrow> error + int" where
  "encrypt m N e = pow m e N"

definition decrypt :: "int \<Rightarrow> int \<Rightarrow> int \<Rightarrow> error + int" where
  "decrypt c N d = pow c d N"

subsection \<open>\<^verbatim>\<open>gen_keys\<close> (lines 127 to 148)\<close>





subsection \<open>\<^verbatim>\<open>crack\<close> (lines 167 to 181)\<close>


subsection \<open>The remainder sequence\<close>

text \<open>
  The list that the loop of \<^verbatim>\<open>ex_gcd\<close> builds from \<^verbatim>\<open>[y, x]\<close>, the final zero
  included, as a recursive function. It is used in the proofs only; \<open>rem_loop\<close> is
  proved to compute it.
\<close>

function euclid_seq :: "int \<Rightarrow> int \<Rightarrow> int list" where
  "euclid_seq y x = (if x \<noteq> 0 then y # euclid_seq x (y mod x) else [y, x])"
  by pat_completeness auto
termination
  by (relation "measure (\<lambda>(y, x). nat \<bar>x\<bar>)") (auto simp: abs_mod_less)

declare euclid_seq.simps [simp del]

subsection \<open>Primality\<close>

text \<open>Primality by trial division, independent of the sieve of \<^verbatim>\<open>gen_prime\<close>.\<close>

definition is_prime_number :: "int \<Rightarrow> bool" where
  "is_prime_number n \<longleftrightarrow> 2 \<le> n \<and> (\<forall>d \<in> set [2..n - 1]. n mod d \<noteq> 0)"

section \<open>Properties\<close>

subsection \<open>List subscripts\<close>

lemma getitem_nth:
  "0 \<le> i \<Longrightarrow> i < int (length xs) \<Longrightarrow> getitem xs i = Inr (xs ! nat i)"
  by (simp add: getitem_def)

lemma getitem_neg:
  "0 < k \<Longrightarrow> k \<le> int (length xs) \<Longrightarrow> getitem xs (- k) = Inr (xs ! nat (int (length xs) - k))"
  by (simp add: getitem_def)

lemma getitem_short:
  "int (length xs) < k \<Longrightarrow> getitem xs (- k) = Inl IndexError"
  by (simp add: getitem_def)

lemma getitem_last: "getitem (xs @ [y, x]) (- 1) = Inr x"
proof -
  have "nat (int (length (xs @ [y, x])) - 1) = Suc (length xs)"
    by simp
  then show ?thesis
    using getitem_neg [of 1 "xs @ [y, x]"] by (simp add: nth_append)
qed

lemma getitem_last2: "getitem (xs @ [y, x]) (- 2) = Inr y"
proof -
  have "nat (int (length (xs @ [y, x])) - 2) = length xs"
    by simp
  then show ?thesis
    using getitem_neg [of 2 "xs @ [y, x]"] by (simp add: nth_append)
qed

lemma setitem_nth:
  "0 \<le> i \<Longrightarrow> i < int (length xs) \<Longrightarrow> setitem xs i v = Inr (xs[nat i := v])"
  by (simp add: setitem_def)

subsection \<open>Modular exponentiation\<close>

lemma sq_power_mod: "(a * a mod N) ^ k mod N = a ^ (2 * k) mod (N::int)"
proof -
  have "(a * a mod N) ^ k mod N = (a * a) ^ k mod N"
    by (rule power_mod)
  also have "(a * a) ^ k = a ^ (2 * k)"
    by (simp add: power_mult power2_eq_square)
  finally show ?thesis .
qed

lemma pow_loop_correct:
  "N \<noteq> 0 \<Longrightarrow> 0 < b \<Longrightarrow> pow_loop ret a b N = Inr (ret * a ^ nat b mod N)"
proof (induction ret a b N rule: pow_loop.induct)
  case (1 ret a b N)
  define k where "k = nat (b div 2)"
  define r where "r = (if b mod 2 = 1 then ret * a mod N else ret)"
  have step: "pow_loop ret a b N = pow_loop r (a * a mod N) (b div 2) N"
    using "1.prems" by (subst pow_loop.simps) (simp add: r_def)
  have nb: "nat b = 2 * k + (if b mod 2 = 1 then 1 else 0)"
    using "1.prems" unfolding k_def by (auto simp: nat_eq_iff) presburger+
  have goal: "r * (a * a mod N) ^ k mod N = ret * a ^ nat b mod N"
  proof -
    have "r * (a * a mod N) ^ k mod N = r * ((a * a mod N) ^ k mod N) mod N"
      by (simp add: mod_mult_right_eq)
    also have "\<dots> = r * (a ^ (2 * k) mod N) mod N"
      by (simp only: sq_power_mod)
    also have "\<dots> = r * a ^ (2 * k) mod N"
      by (simp add: mod_mult_right_eq)
    also have "\<dots> = ret * a ^ nat b mod N"
    proof (cases "b mod 2 = 1")
      case True
      then have "r * a ^ (2 * k) mod N = (ret * a mod N) * a ^ (2 * k) mod N"
        by (simp add: r_def)
      also have "\<dots> = ret * a * a ^ (2 * k) mod N"
        by (simp add: mod_mult_left_eq)
      finally show ?thesis using True nb by (simp add: mult.assoc)
    next
      case False
      then show ?thesis using nb by (simp add: r_def)
    qed
    finally show ?thesis .
  qed
  show ?case
  proof (cases "0 < b div 2")
    case True
    have "pow_loop r (a * a mod N) (b div 2) N = Inr (r * (a * a mod N) ^ nat (b div 2) mod N)"
      unfolding r_def using "1.IH" [OF "1.prems"(2) "1.prems"(1) "1.prems"(1) True] .
    then show ?thesis using step goal by (simp add: k_def)
  next
    case False
    then have b1: "b = 1" using "1.prems" by presburger
    have "pow_loop r (a * a mod N) (b div 2) N = Inr r"
      using False by (subst pow_loop.simps) simp
    then show ?thesis
      using step b1 by (simp add: r_def)
  qed
qed

lemma pow_correct:
  assumes "N \<noteq> 0" "0 < b"
  shows "pow a b N = Inr (a ^ nat b mod N)"
  using pow_loop_correct [OF assms, of 1 a] by (simp add: pow_def)

lemma pow_zero_exponent: "pow a 0 N = Inr 1"
  by (simp add: pow_def pow_loop.simps)

subsection \<open>Primes\<close>

lemma is_prime_number_iff:
  "is_prime_number n \<longleftrightarrow> 2 \<le> n \<and> (\<forall>d. 2 \<le> d \<and> d < n \<longrightarrow> \<not> d dvd n)"
  by (auto simp: is_prime_number_def dvd_eq_mod_eq_0)

lemma prime_divisors:
  assumes "is_prime_number p" "d dvd p" "0 < d"
  shows "d = 1 \<or> d = p"
proof -
  have "d \<le> p"
    using assms by (intro zdvd_imp_le) (auto simp: is_prime_number_iff)
  then have "d = 1 \<or> (2 \<le> d \<and> d < p) \<or> d = p"
    using assms(3) by linarith
  then show ?thesis
    using assms(1,2) by (auto simp: is_prime_number_iff)
qed

lemma prime_coprime:
  assumes "is_prime_number p" "\<not> p dvd a"
  shows "coprime p a"
proof -
  have g0: "0 < gcd p a"
    using assms by (auto simp: is_prime_number_iff gcd_pos_int)
  have "gcd p a dvd p"
    by simp
  then have "gcd p a = 1 \<or> gcd p a = p"
    using prime_divisors [OF assms(1) _ g0] by blast
  moreover have "gcd p a \<noteq> p"
    using assms(2) by (metis gcd_dvd2)
  ultimately show ?thesis
    by (simp add: coprime_iff_gcd_eq_1)
qed

lemma prime_dvd_mult:
  assumes "is_prime_number p" "p dvd a * b"
  shows "p dvd a \<or> p dvd b"
  using assms prime_coprime coprime_dvd_mult_right_iff by blast

subsection \<open>Fermat's little theorem\<close>

lemma prime_dvd_binomial:
  assumes p: "is_prime_number p" and k: "0 < k" "k < nat p"
  shows "p dvd int (nat p choose k)"
proof -
  have "k * (nat p choose k) = nat p * ((nat p - 1) choose (k - 1))"
    using k(1) by (rule times_binomial_minus1_eq)
  then have "int k * int (nat p choose k) = int (nat p) * int ((nat p - 1) choose (k - 1))"
    by (metis of_nat_mult)
  moreover have "int (nat p) = p"
    using p by (simp add: is_prime_number_iff)
  ultimately have "p dvd int k * int (nat p choose k)"
    by simp
  moreover have "\<not> p dvd int k"
    using k by (intro zdvd_not_zless) auto
  ultimately show ?thesis
    using prime_dvd_mult [OF p] by blast
qed

lemma freshman_dream:
  assumes p: "is_prime_number p"
  shows "p dvd (a + 1) ^ nat p - a ^ nat p - 1"
proof -
  obtain n where n: "nat p = Suc n"
    using p by (cases "nat p") (auto simp: is_prime_number_iff)
  define f where "f k = int (Suc n choose k) * a ^ k" for k
  have "(a + 1) ^ Suc n = (\<Sum>k\<le>Suc n. f k)"
    using binomial_ring [of a 1 "Suc n"] by (simp add: f_def)
  also have "\<dots> = (\<Sum>k\<le>n. f k) + f (Suc n)"
    by simp
  also have "(\<Sum>k\<le>n. f k) = f 0 + (\<Sum>k<n. f (Suc k))"
    by (simp add: sum.atMost_shift)
  finally have "(a + 1) ^ Suc n - a ^ Suc n - 1 = (\<Sum>k<n. f (Suc k))"
    by (simp add: f_def)
  moreover have "p dvd (\<Sum>k<n. f (Suc k))"
  proof (rule dvd_sum)
    fix k assume "k \<in> {..<n}"
    then have "p dvd int (nat p choose Suc k)"
      using prime_dvd_binomial [OF p, of "Suc k"] n by simp
    then show "p dvd f (Suc k)"
      unfolding f_def n by (rule dvd_mult2)
  qed
  ultimately show ?thesis
    by (simp add: n)
qed

lemma fermat_nat:
  assumes p: "is_prime_number p"
  shows "p dvd int a ^ nat p - int a"
proof (induction a)
  case 0
  have "0 < nat p"
    using p by (simp add: is_prime_number_iff)
  then show ?case
    by (simp add: zero_power)
next
  case (Suc a)
  have eq: "int (Suc a) ^ nat p - int (Suc a)
      = ((int a + 1) ^ nat p - int a ^ nat p - 1) + (int a ^ nat p - int a)"
    by (simp add: algebra_simps)
  have "p dvd ((int a + 1) ^ nat p - int a ^ nat p - 1) + (int a ^ nat p - int a)"
    using freshman_dream [OF p, of "int a"] Suc.IH by (rule dvd_add)
  then show ?case
    by (simp only: eq)
qed

lemma fermat_little:
  assumes p: "is_prime_number p" and m: "0 \<le> m"
  shows "p dvd m ^ nat p - m"
  using fermat_nat [OF p, of "nat m"] m by simp

lemma fermat_power_one:
  assumes p: "is_prime_number p" and m: "0 \<le> m" and nd: "\<not> p dvd m"
  shows "m ^ (nat p - 1) mod p = 1"
proof -
  have p1: "0 < nat p" "1 < p"
    using p by (auto simp: is_prime_number_iff)
  then have "m ^ nat p = m * m ^ (nat p - 1)"
    by (metis power_minus_mult mult.commute)
  then have "m ^ nat p - m = m * (m ^ (nat p - 1) - 1)"
    by (simp add: algebra_simps)
  then have "p dvd m * (m ^ (nat p - 1) - 1)"
    using fermat_little [OF p m] by simp
  then have "p dvd m ^ (nat p - 1) - 1"
    using prime_dvd_mult [OF p] nd by blast
  then have "m ^ (nat p - 1) mod p = 1 mod p"
    by (simp add: mod_eq_dvd_iff)
  then show ?thesis
    using p1 by simp
qed

lemma prime_power_cycle:
  assumes p: "is_prime_number p" and m: "0 \<le> m"
  shows "m ^ (1 + k * (nat p - 1)) mod p = m mod p"
proof (cases "p dvd m")
  case True
  then have "p dvd m ^ (1 + k * (nat p - 1))"
    by simp
  with True show ?thesis
    by (simp add: mod_eq_0_iff_dvd)
next
  case False
  have "m ^ (k * (nat p - 1)) = (m ^ (nat p - 1)) ^ k"
    by (simp add: power_mult [symmetric] mult.commute)
  then have "m ^ (k * (nat p - 1)) mod p = (m ^ (nat p - 1) mod p) ^ k mod p"
    by (simp add: power_mod)
  also have "\<dots> = 1 mod p"
    using fermat_power_one [OF p m False] by simp
  finally have "m * (m ^ (k * (nat p - 1)) mod p) mod p = m * (1 mod p) mod p"
    by simp
  then show ?thesis
    by (simp add: mod_mult_right_eq)
qed

subsection \<open>The round trip of encryption and decryption\<close>

lemma distinct_primes_coprime:
  assumes "is_prime_number p" "is_prime_number q" "p \<noteq> q"
  shows "coprime p q"
proof (rule prime_coprime [OF assms(1)])
  show "\<not> p dvd q"
  proof
    assume "p dvd q"
    moreover have "0 < p"
      using assms(1) by (simp add: is_prime_number_iff)
    ultimately have "p = 1 \<or> p = q"
      by (rule prime_divisors [OF assms(2)])
    then show False
      using assms by (simp add: is_prime_number_iff)
  qed
qed

lemma rsa_exponent:
  assumes p: "is_prime_number p" and q: "is_prime_number q" and pq: "p \<noteq> q"
    and m: "0 \<le> m"
  shows "m ^ (1 + k * ((nat p - 1) * (nat q - 1))) mod (p * q) = m mod (p * q)"
proof -
  let ?E = "1 + k * ((nat p - 1) * (nat q - 1))"
  have e1: "?E = 1 + (k * (nat q - 1)) * (nat p - 1)"
    by (simp add: mult.commute mult.left_commute)
  have "m ^ ?E mod p = m mod p"
    unfolding e1 using p m by (rule prime_power_cycle)
  then have dp: "p dvd m ^ ?E - m"
    by (simp add: mod_eq_dvd_iff)
  have e2: "?E = 1 + (k * (nat p - 1)) * (nat q - 1)"
    by (simp add: mult.commute mult.left_commute)
  have "m ^ ?E mod q = m mod q"
    unfolding e2 using q m by (rule prime_power_cycle)
  then have dq: "q dvd m ^ ?E - m"
    by (simp add: mod_eq_dvd_iff)
  have "p * q dvd m ^ ?E - m"
    using dp dq distinct_primes_coprime [OF p q pq] by (rule divides_mult)
  then show ?thesis
    by (simp add: mod_eq_dvd_iff)
qed

lemma rsa_round_trip_aux:
  assumes p: "is_prime_number p" and q: "is_prime_number q" and pq: "p \<noteq> q"
    and ed: "(e * d) mod ((p - 1) * (q - 1)) = 1" and e: "0 \<le> e" and d: "0 \<le> d"
    and m: "0 \<le> m" "m < p * q"
  shows "encrypt m (p * q) e = Inr (m ^ nat e mod (p * q))"
    and "decrypt (m ^ nat e mod (p * q)) (p * q) d = Inr m"
proof -
  let ?N = "p * q" and ?phi = "(p - 1) * (q - 1)"
  have p2: "2 \<le> p" and q2: "2 \<le> q"
    using p q by (auto simp: is_prime_number_iff)
  have N0: "?N \<noteq> 0"
    using p2 q2 by simp
  have ed0: "e * d \<noteq> 0"
    using ed by auto
  then have e0: "0 < e" and d0: "0 < d"
    using e d by (auto simp: less_le)
  show enc: "encrypt m ?N e = Inr (m ^ nat e mod ?N)"
    unfolding encrypt_def using N0 e0 by (rule pow_correct)
  have dec: "decrypt (m ^ nat e mod ?N) ?N d = Inr ((m ^ nat e mod ?N) ^ nat d mod ?N)"
    unfolding decrypt_def using N0 d0 by (rule pow_correct)
  define k where "k = nat (e * d div ?phi)"
  have phi_pos: "0 < ?phi"
    using p2 q2 by simp
  have "e * d = ?phi * (e * d div ?phi) + 1"
    using ed by (metis mult_div_mod_eq)
  moreover have "0 \<le> e * d div ?phi"
    using e d phi_pos by (simp add: pos_imp_zdiv_nonneg_iff)
  ultimately have "e * d = 1 + int k * ?phi"
    by (simp add: k_def mult.commute)
  moreover have "?phi = int ((nat p - 1) * (nat q - 1))"
    using p2 q2 by (simp add: of_nat_diff)
  ultimately have "e * d = int (1 + k * ((nat p - 1) * (nat q - 1)))"
    by simp
  then have "nat (e * d) = 1 + k * ((nat p - 1) * (nat q - 1))"
    by linarith
  moreover have "nat (e * d) = nat e * nat d"
    using e by (simp add: nat_mult_distrib)
  ultimately have E: "nat e * nat d = 1 + k * ((nat p - 1) * (nat q - 1))"
    by simp
  have "(m ^ nat e mod ?N) ^ nat d mod ?N = (m ^ nat e) ^ nat d mod ?N"
    by (rule power_mod)
  also have "\<dots> = m ^ (nat e * nat d) mod ?N"
    by (simp add: power_mult)
  also have "\<dots> = m mod ?N"
    unfolding E using p q pq m(1) by (rule rsa_exponent)
  also have "\<dots> = m"
    using m by simp
  finally show "decrypt (m ^ nat e mod ?N) ?N d = Inr m"
    using dec by simp
qed

text \<open>
  Claim C1. For a key \<open>(N, e, d)\<close> with \<open>N = p * q\<close> for distinct primes \<open>p\<close> and \<open>q\<close>,
  \<open>phi = (p - 1) * (q - 1)\<close>, \<open>gcd e phi = 1\<close> and \<open>(e * d) mod phi = 1\<close>, where \<open>e\<close> and \<open>d\<close>
  are nonnegative as the integers of a key pair are, and for every message \<open>m\<close> with
  \<open>0 \<le> m < N\<close>: encryption returns a ciphertext and decrypting it returns \<open>m\<close>.
\<close>

theorem rsa_round_trip:
  assumes "is_prime_number p" and "is_prime_number q" and "p \<noteq> q"
    and "N = p * q" and "phi = (p - 1) * (q - 1)"
    and "gcd e phi = 1" and "(e * d) mod phi = 1"
    and "0 \<le> e" and "0 \<le> d" and "0 \<le> m" and "m < N"
  shows "\<exists>c. encrypt m N e = Inr c \<and> decrypt c N d = Inr m"
  using rsa_round_trip_aux [of p q e d m] assms by blast

theorem rsa_round_trip_witness:
  "is_prime_number 61 \<and> is_prime_number 53 \<and> gcd (17::int) 3120 = 1 \<and> (17 * 2753) mod 3120 = (1::int)
   \<and> (\<exists>c. encrypt 65 3233 17 = Inr c \<and> decrypt c 3233 2753 = Inr 65)"
proof -
  have p: "is_prime_number 61" by (simp add: is_prime_number_def)
  have q: "is_prime_number 53" by (simp add: is_prime_number_def)
  have g: "gcd (17::int) 3120 = 1" by code_simp
  have ed: "(17 * 2753) mod 3120 = (1::int)" by simp
  show ?thesis
    using p q g ed rsa_round_trip [of 61 53 3233 3120 17 2753 65] by simp
qed

subsection \<open>The remainder sequence of the extended Euclidean algorithm\<close>

lemma euclid_seq_zero: "euclid_seq y 0 = [y, 0]"
  by (subst euclid_seq.simps) simp

lemma euclid_seq_step: "x \<noteq> 0 \<Longrightarrow> euclid_seq y x = y # euclid_seq x (y mod x)"
  by (subst euclid_seq.simps) simp

lemma rem_loop_euclid_seq: "rem_loop (pre @ [y, x]) = Inr (pre @ euclid_seq y x)"
proof (induction y x arbitrary: pre rule: euclid_seq.induct)
  case (1 y x)
  show ?case
  proof (cases "x = 0")
    case True
    then show ?thesis
      by (subst rem_loop.simps) (simp add: getitem_last euclid_seq_zero)
  next
    case False
    have "rem_loop ((pre @ [y]) @ [x, y mod x]) = Inr ((pre @ [y]) @ euclid_seq x (y mod x))"
      using False by (rule "1.IH")
    then show ?thesis
      using False by (subst rem_loop.simps) (simp add: getitem_last getitem_last2 euclid_seq_step)
  qed
qed

lemma rem_loop_pair: "rem_loop [a, b] = Inr (euclid_seq a b)"
  using rem_loop_euclid_seq [of "[]" a b] by simp

lemma euclid_seq_length: "2 \<le> length (euclid_seq y x)"
proof (induction y x rule: euclid_seq.induct)
  case (1 y x)
  then show ?case
    by (cases "x = 0") (simp_all add: euclid_seq_zero euclid_seq_step)
qed

lemma euclid_seq_hd: "euclid_seq y x ! 0 = y"
  by (cases "x = 0") (simp_all add: euclid_seq_zero euclid_seq_step)

lemma euclid_seq_snd: "euclid_seq y x ! Suc 0 = x"
  by (cases "x = 0") (simp_all add: euclid_seq_zero euclid_seq_step euclid_seq_hd)

lemma euclid_seq_chain:
  "k + 2 < length (euclid_seq y x) \<Longrightarrow>
     euclid_seq y x ! (k + 2) = euclid_seq y x ! k mod euclid_seq y x ! (k + 1)
     \<and> euclid_seq y x ! (k + 1) \<noteq> 0"
proof (induction y x arbitrary: k rule: euclid_seq.induct)
  case (1 y x)
  show ?case
  proof (cases "x = 0")
    case True
    with "1.prems" show ?thesis
      by (simp add: euclid_seq_zero)
  next
    case False
    then have eq: "euclid_seq y x = y # euclid_seq x (y mod x)"
      by (rule euclid_seq_step)
    show ?thesis
    proof (cases k)
      case 0
      then show ?thesis
        using False by (simp add: eq euclid_seq_hd euclid_seq_snd)
    next
      case (Suc j)
      have "j + 2 < length (euclid_seq x (y mod x))"
        using "1.prems" by (simp add: eq Suc)
      from "1.IH" [OF False this] show ?thesis
        by (simp add: eq Suc)
    qed
  qed
qed

lemma euclid_seq_last_gcd:
  "0 \<le> y \<Longrightarrow> 0 \<le> x \<Longrightarrow> last (butlast (euclid_seq y x)) = gcd y x"
proof (induction y x rule: euclid_seq.induct)
  case (1 y x)
  show ?case
  proof (cases "x = 0")
    case True
    then show ?thesis
      using "1.prems" by (simp add: euclid_seq_zero)
  next
    case False
    then have eq: "euclid_seq y x = y # euclid_seq x (y mod x)"
      by (rule euclid_seq_step)
    have len: "2 \<le> length (euclid_seq x (y mod x))"
      by (rule euclid_seq_length)
    then have ne: "euclid_seq x (y mod x) \<noteq> []" "butlast (euclid_seq x (y mod x)) \<noteq> []"
      by (auto simp: butlast_conv_take)
    have "0 \<le> y mod x"
      using False "1.prems" by simp
    then have "last (butlast (euclid_seq x (y mod x))) = gcd x (y mod x)"
      using "1.IH" [OF False] "1.prems" by simp
    also have "\<dots> = gcd y x"
      by (simp add: gcd.commute gcd_red_int [symmetric])
    finally show ?thesis
      using ne by (simp add: eq)
  qed
qed

lemma euclid_seq_long:
  assumes "x \<noteq> 0" "y mod x \<noteq> 0"
  shows "4 \<le> length (euclid_seq y x)"
proof -
  have "euclid_seq y x = y # x # euclid_seq (y mod x) (x mod (y mod x))"
    using assms by (simp add: euclid_seq_step)
  then show ?thesis
    using euclid_seq_length [of "y mod x" "x mod (y mod x)"] by simp
qed

lemma euclid_seq_short:
  assumes "x = 0 \<or> y mod x = 0"
  shows "length (euclid_seq y x) \<le> 3"
proof (cases "x = 0")
  case True
  then show ?thesis
    by (simp add: euclid_seq_zero)
next
  case False
  with assms have "euclid_seq y x = [y, x, 0]"
    by (simp add: euclid_seq_step euclid_seq_zero)
  then show ?thesis
    by simp
qed

subsection \<open>Back-substitution\<close>

lemma back_sub_invariant:
  assumes "1 \<le> i" and "i < int (length vs)"
    and "\<And>k. k + 2 \<le> nat i \<Longrightarrow> vs ! (k + 2) = vs ! k mod vs ! (k + 1) \<and> vs ! (k + 1) \<noteq> 0"
  shows "\<exists>s' t'. back_sub vs i s t = Inr (s', t')
           \<and> s' * vs ! 0 + t' * vs ! 1 = s * vs ! nat (i - 1) + t * vs ! nat i"
  using assms
proof (induction vs i s t rule: back_sub.induct)
  case (1 vals i s t)
  show ?case
  proof (cases "i > 1")
    case False
    with "1.prems" have "i = 1"
      by simp
    then show ?thesis
      by (subst back_sub.simps) simp
  next
    case True
    define k where "k = nat (i - 2)"
    define x where "x = vals ! k"
    define y where "y = vals ! (k + 1)"
    have idx: "nat (i - 2) = k" "nat (i - 1) = k + 1" "nat i = k + 2"
      using True by (simp_all add: k_def nat_add_distrib nat_diff_distrib)
    have ch: "vals ! (k + 2) = x mod y \<and> y \<noteq> 0"
      unfolding x_def y_def using "1.prems"(3) [of k] idx by simp
    have gx: "getitem vals (i - 2) = Inr x"
      using True "1.prems"(2) idx by (simp add: getitem_nth x_def)
    have gy: "getitem vals (i - 1) = Inr y"
      using True "1.prems"(2) idx by (simp add: getitem_nth y_def)
    have fd: "floordiv x y = Inr (x div y)"
      using ch by (simp add: floordiv_def)
    have step: "back_sub vals i s t = back_sub vals (i - 1) t (s + t * (- (x div y)))"
      using True by (subst back_sub.simps) (simp add: gx gy fd)
    have "\<exists>s' t'. back_sub vals (i - 1) t (s + t * (- (x div y))) = Inr (s', t')
            \<and> s' * vals ! 0 + t' * vals ! 1
              = t * vals ! nat (i - 1 - 1) + (s + t * (- (x div y))) * vals ! nat (i - 1)"
    proof (rule "1.IH" [OF True gx gy fd])
      show "1 \<le> i - 1"
        using True by simp
      show "i - 1 < int (length vals)"
        using "1.prems"(2) by simp
      show "vals ! (j + 2) = vals ! j mod vals ! (j + 1) \<and> vals ! (j + 1) \<noteq> 0"
        if "j + 2 \<le> nat (i - 1)" for j
        using that "1.prems"(3) [of j] idx by simp
    qed
    then obtain s' t' where res: "back_sub vals (i - 1) t (s + t * (- (x div y))) = Inr (s', t')"
      and eq: "s' * vals ! 0 + t' * vals ! 1 = t * x + (s + t * (- (x div y))) * y"
      using idx by (auto simp: x_def y_def)
    have md: "x mod y = x - (x div y) * y"
      by (simp add: minus_div_mult_eq_mod)
    have "t * x + (s + t * (- (x div y))) * y = s * y + t * (x - (x div y) * y)"
      by (simp add: algebra_simps)
    also have "\<dots> = s * y + t * (x mod y)"
      by (simp only: md)
    finally have "s' * vals ! 0 + t' * vals ! 1 = s * vals ! nat (i - 1) + t * vals ! nat i"
      using eq ch idx by (simp add: y_def)
    then show ?thesis
      using step res by simp
  qed
qed

lemma ex_gcd_short:
  assumes "a = max a0 b0" and "b = min a0 b0" and "b = 0 \<or> a mod b = 0"
  shows "ex_gcd a0 b0 = Inl IndexError"
proof -
  have sw: "(if b0 > a0 then b0 else a0) = a" "(if b0 > a0 then a0 else b0) = b"
    using assms by auto
  have "length (euclid_seq a b) \<le> 3"
    using assms(3) by (rule euclid_seq_short)
  then have "int (length (butlast (euclid_seq a b))) < 3"
    by simp
  then have "getitem (butlast (euclid_seq a b)) (- 3) = Inl IndexError"
    by (rule getitem_short)
  then show ?thesis
    by (simp add: ex_gcd_def Let_def sw rem_loop_pair)
qed

lemma ex_gcd_long:
  assumes "a = max a0 b0" and "b = min a0 b0" and "b \<noteq> 0" and "a mod b \<noteq> 0"
  shows "\<exists>s t. s * a + t * b = last (butlast (euclid_seq a b))
           \<and> ex_gcd a0 b0
               = Inr (last (butlast (euclid_seq a b)), if b0 > a0 then t mod a else s mod b)"
proof -
  have sw: "(if b0 > a0 then b0 else a0) = a" "(if b0 > a0 then a0 else b0) = b"
    using assms by auto
  define vals where "vals = butlast (euclid_seq a b)"
  define n where "n = length vals"
  have len: "length (euclid_seq a b) = n + 1" "3 \<le> n"
    using euclid_seq_long [OF assms(3,4)] by (simp_all add: n_def vals_def)
  have nth: "vals ! k = euclid_seq a b ! k" if "k < n" for k
    using that unfolding vals_def n_def by (simp add: nth_butlast)
  have chain: "vals ! (k + 2) = vals ! k mod vals ! (k + 1) \<and> vals ! (k + 1) \<noteq> 0"
    if "k + 2 < n" for k
    using euclid_seq_chain [of k a b] that len by (simp add: nth)
  have v0: "vals ! 0 = a" and v1: "vals ! 1 = b"
    using len by (simp_all add: nth euclid_seq_hd euclid_seq_snd)
  obtain m where m: "n = m + 3"
    using len(2) by (metis add.commute le_Suc_ex)
  define x where "x = vals ! m"
  define y where "y = vals ! (m + 1)"
  have last: "vals ! (m + 2) = x mod y" and y0: "y \<noteq> 0"
    using chain [of m] by (simp_all add: m x_def y_def)
  have ne: "vals \<noteq> []"
    using len n_def by auto
  have g: "last vals = x mod y"
    using last ne by (simp add: last_conv_nth n_def [symmetric] m)
  have g3: "getitem vals (- 3) = Inr x"
    using getitem_neg [of 3 vals] by (simp add: n_def [symmetric] m x_def)
  have g2: "getitem vals (- 2) = Inr y"
    using getitem_neg [of 2 vals] by (simp add: n_def [symmetric] m y_def nat_add_distrib)
  have "nat (int (length vals) - 1) = length vals - 1"
    by simp
  then have g1: "getitem vals (- 1) = Inr (last vals)"
    using getitem_neg [of 1 vals] ne len(2) by (simp add: last_conv_nth n_def)
  have fd: "floordiv x y = Inr (x div y)"
    using y0 by (simp add: floordiv_def)
  have "\<exists>s t. back_sub vals (int (length vals) - 2) 1 (- (x div y)) = Inr (s, t)
          \<and> s * vals ! 0 + t * vals ! 1
            = 1 * vals ! nat (int (length vals) - 2 - 1) + (- (x div y)) * vals ! nat (int (length vals) - 2)"
  proof (rule back_sub_invariant)
    show "1 \<le> int (length vals) - 2"
      using len by (simp add: n_def)
    show "int (length vals) - 2 < int (length vals)"
      by simp
    show "vals ! (k + 2) = vals ! k mod vals ! (k + 1) \<and> vals ! (k + 1) \<noteq> 0"
      if "k + 2 \<le> nat (int (length vals) - 2)" for k
      using that by (intro chain) (simp add: n_def [symmetric] m)
  qed
  then obtain s t where bs: "back_sub vals (int (length vals) - 2) 1 (- (x div y)) = Inr (s, t)"
    and raw: "s * vals ! 0 + t * vals ! 1
            = 1 * vals ! nat (int (length vals) - 2 - 1) + (- (x div y)) * vals ! nat (int (length vals) - 2)"
    by blast
  have ix: "nat (int (length vals) - 2 - 1) = m" "nat (int (length vals) - 2) = m + 1"
    by (simp_all add: n_def [symmetric] m)
  have eq: "s * a + t * b = x + (- (x div y)) * y"
    using raw unfolding ix v0 v1 x_def [symmetric] y_def [symmetric] by simp
  have "x mod y = x - (x div y) * y"
    by (simp add: minus_div_mult_eq_mod)
  then have bez: "s * a + t * b = last vals"
    using eq g by simp
  have a0: "a \<noteq> 0"
    using assms(4) by auto
  have "ex_gcd a0 b0 = Inr (last vals, if b0 > a0 then t mod a else s mod b)"
  proof (cases "b0 > a0")
    case True
    then have ab: "a = b0" "b = a0"
      using assms(1,2) by auto
    show ?thesis
      using a0 g3 g2 g1 fd bs True unfolding vals_def ab
      by (simp add: ex_gcd_def Let_def rem_loop_pair pymod_def)
  next
    case False
    then have ab: "a = a0" "b = b0"
      using assms(1,2) by auto
    show ?thesis
      using assms(3) g3 g2 g1 fd bs False unfolding vals_def ab
      by (simp add: ex_gcd_def Let_def rem_loop_pair pymod_def)
  qed
  with bez show ?thesis
    unfolding vals_def by blast
qed

subsection \<open>Bezout's identity\<close>

lemma bezout_mod:
  assumes "u * x + v * (n::int) = 1" and "2 \<le> n"
  shows "(x * (u mod n)) mod n = 1"
proof -
  have "x * u = (u * x + v * n) + (- v) * n"
    by (simp add: mult.commute)
  then have xu: "x * u = 1 + (- v) * n"
    by (simp only: assms(1))
  have "(x * (u mod n)) mod n = (x * u) mod n"
    by (simp add: mod_mult_right_eq)
  also have "\<dots> = (1 + (- v) * n) mod n"
    by (simp only: xu)
  also have "\<dots> = 1 mod n"
    by (rule mod_mult_self1)
  also have "\<dots> = 1"
    using assms(2) by simp
  finally show ?thesis .
qed

lemma ex_gcd_inverse:
  assumes "2 \<le> a0" and "2 \<le> b0" and "gcd a0 b0 = 1"
  shows "\<exists>r. ex_gcd a0 b0 = Inr (1, r) \<and> (a0 * r) mod b0 = 1 \<and> 0 \<le> r \<and> r < b0"
proof -
  define a where "a = max a0 b0"
  define b where "b = min a0 b0"
  have b2: "2 \<le> b" and a2: "2 \<le> a"
    using assms by (simp_all add: a_def b_def)
  have g: "gcd a b = 1"
    using assms(3) by (auto simp: a_def b_def max_def min_def gcd.commute)
  have nd: "a mod b \<noteq> 0"
  proof
    assume "a mod b = 0"
    then have "b dvd a"
      by (simp add: dvd_eq_mod_eq_0)
    then have "b dvd gcd a b"
      by simp
    then show False
      using g b2 by simp
  qed
  have lg: "last (butlast (euclid_seq a b)) = 1"
    using euclid_seq_last_gcd [of a b] a2 b2 g by simp
  obtain s t where bez: "s * a + t * b = 1"
    and res: "ex_gcd a0 b0 = Inr (1, if b0 > a0 then t mod a else s mod b)"
    using ex_gcd_long [OF a_def b_def _ nd] b2 unfolding lg by auto
  show ?thesis
  proof (cases "b0 > a0")
    case True
    then have ab: "a = b0" "b = a0"
      by (simp_all add: a_def b_def)
    have "t * a0 + s * b0 = 1"
      using bez by (simp add: ab add.commute)
    then have "(a0 * (t mod b0)) mod b0 = 1"
      using assms(2) by (rule bezout_mod)
    then show ?thesis
      using res True assms(2) by (simp add: ab)
  next
    case False
    then have ab: "a = a0" "b = b0"
      by (simp_all add: a_def b_def)
    have "s * a0 + t * b0 = 1"
      using bez by (simp add: ab)
    then have "(a0 * (s mod b0)) mod b0 = 1"
      using assms(2) by (rule bezout_mod)
    then show ?thesis
      using res False assms(2) by (simp add: ab)
  qed
qed

lemma ex_gcd_unit:
  assumes "a0 = 1 \<or> b0 = 1" and "1 \<le> a0" and "1 \<le> b0"
  shows "ex_gcd a0 b0 = Inl IndexError"
proof (rule ex_gcd_short [OF refl refl])
  have "min a0 b0 = 1"
    using assms by auto
  then show "min a0 b0 = 0 \<or> max a0 b0 mod min a0 b0 = 0"
    by simp
qed

text \<open>
  Claim C4, as amended. For coprime \<open>a \<ge> 2\<close> and \<open>b \<ge> 2\<close>, \<open>ex_gcd a b\<close> returns a pair
  \<open>(1, inverse)\<close> with \<open>(a * inverse) mod b = 1\<close>, and \<open>ex_gcd 3 11\<close> returns \<open>(1, 4)\<close>. When
  one argument is 1 the remainder sequence has two entries only and \<^verbatim>\<open>vals[-3]\<close> raises
  IndexError.
\<close>

theorem ex_gcd_bezout:
  assumes "2 \<le> a" and "2 \<le> b" and "gcd a b = 1"
  shows "(\<exists>inverse. ex_gcd a b = Inr (1, inverse) \<and> (a * inverse) mod b = 1)
         \<and> ex_gcd 3 11 = Inr (1, 4)"
proof
  show "\<exists>inverse. ex_gcd a b = Inr (1, inverse) \<and> (a * inverse) mod b = 1"
    using ex_gcd_inverse [OF assms] by blast
  show "ex_gcd 3 11 = Inr (1, 4)"
    by code_simp
qed

theorem ex_gcd_bezout_witness:
  "(2::int) \<le> 17 \<and> (2::int) \<le> 3120 \<and> gcd (17::int) 3120 = 1
   \<and> (\<exists>inverse. ex_gcd 17 3120 = Inr (1, inverse) \<and> (17 * inverse) mod 3120 = 1)"
proof -
  have g: "gcd (17::int) 3120 = 1"
    by code_simp
  show ?thesis
    using g ex_gcd_bezout [of 17 3120] by simp
qed

theorem ex_gcd_bezout_counterexample:
  "(1::int) \<le> 1 \<and> (1::int) \<le> 5 \<and> gcd (1::int) 5 = 1 \<and> ex_gcd 1 5 = Inl IndexError
   \<and> gcd (5::int) 1 = 1 \<and> ex_gcd 5 1 = Inl IndexError"
  using ex_gcd_unit [of 1 5] ex_gcd_unit [of 5 1] by simp

subsection \<open>Integer square roots and trial division\<close>





subsection \<open>Marking the multiples of a divisor\<close>

lemma mark_multiples_spec:
  assumes "0 < d" and "start \<le> q" and "length ip = nat (end - start + 1)"
  shows "\<exists>ip'. mark_multiples q end d start ip = Inr ip' \<and> length ip' = length ip
           \<and> (\<forall>i < length ip.
                 ip' ! i = (ip ! i \<and> \<not> (q \<le> start + int i \<and> d dvd (start + int i - q))))"
  using assms
proof (induction q "end" d start ip rule: mark_multiples.induct)
  case (1 q e d start ip)
  show ?case
  proof (cases "q < e + 1")
    case False
    then have "mark_multiples q e d start ip = Inr ip"
      by (subst mark_multiples.simps) simp
    moreover have "\<not> q \<le> start + int i" if "i < length ip" for i
      using that False "1.prems"(3) by linarith
    ultimately show ?thesis
      by simp
  next
    case True
    define ip1 where "ip1 = ip[nat (q - start) := False]"
    have si: "setitem ip (q - start) False = Inr ip1"
      unfolding ip1_def using True "1.prems" by (intro setitem_nth) linarith+
    have step: "mark_multiples q e d start ip = mark_multiples (q + d) e d start ip1"
      using True "1.prems"(1) by (subst mark_multiples.simps) (simp add: si)
    have "\<exists>ip'. mark_multiples (q + d) e d start ip1 = Inr ip' \<and> length ip' = length ip1
           \<and> (\<forall>i < length ip1.
                 ip' ! i = (ip1 ! i \<and> \<not> (q + d \<le> start + int i \<and> d dvd (start + int i - (q + d)))))"
    proof (rule "1.IH" [OF _ si])
      show "0 < d \<and> q < e + 1"
        using True "1.prems"(1) by simp
      show "0 < d"
        by (rule "1.prems"(1))
      show "start \<le> q + d"
        using "1.prems"(1,2) by simp
      show "length ip1 = nat (e - start + 1)"
        using "1.prems"(3) by (simp add: ip1_def)
    qed
    then obtain ip' where res: "mark_multiples (q + d) e d start ip1 = Inr ip'"
      and len: "length ip' = length ip"
      and nth: "\<And>i. i < length ip \<Longrightarrow>
                  ip' ! i = (ip1 ! i \<and> \<not> (q + d \<le> start + int i \<and> d dvd (start + int i - (q + d))))"
      by (auto simp: ip1_def)
    have "ip' ! i = (ip ! i \<and> \<not> (q \<le> start + int i \<and> d dvd (start + int i - q)))"
      if i: "i < length ip" for i
    proof -
      define x where "x = start + int i"
      have one: "ip1 ! i = (ip ! i \<and> x \<noteq> q)"
      proof (cases "x = q")
        case True
        then have "nat (q - start) = i"
          unfolding x_def by linarith
        then show ?thesis
          using i True unfolding ip1_def by simp
      next
        case False
        then have "nat (q - start) \<noteq> i"
          using "1.prems"(2) unfolding x_def by linarith
        then show ?thesis
          using False unfolding ip1_def by simp
      qed
      have two: "(q \<le> x \<and> d dvd (x - q)) \<longleftrightarrow> (x = q \<or> (q + d \<le> x \<and> d dvd (x - (q + d))))"
      proof
        assume l: "q \<le> x \<and> d dvd (x - q)"
        show "x = q \<or> (q + d \<le> x \<and> d dvd (x - (q + d)))"
        proof (cases "x = q")
          case False
          with l have pos: "0 < x - q"
            by simp
          from l have dv: "d dvd x - q"
            by (rule conjunct2)
          have "d \<le> x - q"
            using dv pos by (rule zdvd_imp_le)
          moreover have "d dvd (x - q) - d"
            using dv dvd_refl by (rule dvd_diff)
          moreover have "x - q - d = x - (q + d)"
            by simp
          ultimately show ?thesis
            by (simp only:) simp
        qed simp
      next
        assume r: "x = q \<or> (q + d \<le> x \<and> d dvd (x - (q + d)))"
        then show "q \<le> x \<and> d dvd (x - q)"
        proof
          assume "x = q"
          then show ?thesis by simp
        next
          assume a: "q + d \<le> x \<and> d dvd (x - (q + d))"
          from a have dv: "d dvd x - (q + d)"
            by (rule conjunct2)
          have "d dvd (x - (q + d)) + d"
            using dv dvd_refl by (rule dvd_add)
          moreover have "x - (q + d) + d = x - q"
            by simp
          ultimately have "d dvd x - q"
            by (simp only:)
          moreover have "q \<le> x"
            using a "1.prems"(1) by simp
          ultimately show ?thesis
            by (rule conjI [rotated])
        qed
      qed
      show ?thesis
        using nth [OF i] one two unfolding x_def by blast
    qed
    then show ?thesis
      using step res len by simp
  qed
qed

subsection \<open>The sieve of a window\<close>

lemma sieve_window_spec:
  assumes "0 < d" and "start \<le> p" and "length ip = nat (end - start + 1)"
  shows "\<exists>ip'. sieve_window p end d start ip = Inr ip' \<and> length ip' = length ip
           \<and> (\<forall>i < length ip.
                 ip' ! i = (ip ! i \<and> \<not> (p \<le> start + int i \<and> d dvd (start + int i))))"
  using assms
proof (induction p "end" d start ip rule: sieve_window.induct)
  case (1 p e d start ip)
  show ?case
  proof (cases "p < e + 1")
    case False
    then have "sieve_window p e d start ip = Inr ip"
      by (subst sieve_window.simps) simp
    moreover have "\<not> p \<le> start + int i" if "i < length ip" for i
      using that False "1.prems"(3) by linarith
    ultimately show ?thesis
      by simp
  next
    case True
    show ?thesis
    proof (cases "p mod d = 0")
      case dp: True
      then have dvd_p: "d dvd p"
        by (simp add: dvd_eq_mod_eq_0)
      obtain ip1 where mm: "mark_multiples p e d start ip = Inr ip1"
        and len1: "length ip1 = length ip"
        and nth1: "\<And>i. i < length ip \<Longrightarrow>
                  ip1 ! i = (ip ! i \<and> \<not> (p \<le> start + int i \<and> d dvd (start + int i - p)))"
        using mark_multiples_spec [OF "1.prems"] by blast
      have step: "sieve_window p e d start ip = sieve_window (p + 1) e d start ip1"
        using True dp by (subst sieve_window.simps) (simp add: mm)
      have "\<exists>ip'. sieve_window (p + 1) e d start ip1 = Inr ip' \<and> length ip' = length ip1
           \<and> (\<forall>i < length ip1.
                 ip' ! i = (ip1 ! i \<and> \<not> (p + 1 \<le> start + int i \<and> d dvd (start + int i))))"
        using "1.prems" len1 by (intro "1.IH"(1) [OF True dp mm]) simp_all
      then obtain ip' where res: "sieve_window (p + 1) e d start ip1 = Inr ip'"
        and len: "length ip' = length ip"
        and nth: "\<And>i. i < length ip \<Longrightarrow>
                  ip' ! i = (ip1 ! i \<and> \<not> (p + 1 \<le> start + int i \<and> d dvd (start + int i)))"
        using len1 by auto
      have "ip' ! i = (ip ! i \<and> \<not> (p \<le> start + int i \<and> d dvd (start + int i)))"
        if i: "i < length ip" for i
      proof -
        have "d dvd (start + int i - p) \<longleftrightarrow> d dvd (start + int i)"
          using dvd_p by (simp add: dvd_diff_left_iff)
        then show ?thesis
          using nth [OF i] nth1 [OF i] by auto
      qed
      then show ?thesis
        using step res len by simp
    next
      case ndp: False
      then have ndvd_p: "\<not> d dvd p"
        by (simp add: dvd_eq_mod_eq_0)
      have step: "sieve_window p e d start ip = sieve_window (p + 1) e d start ip"
        using True ndp by (subst sieve_window.simps) simp
      have "\<exists>ip'. sieve_window (p + 1) e d start ip = Inr ip' \<and> length ip' = length ip
           \<and> (\<forall>i < length ip.
                 ip' ! i = (ip ! i \<and> \<not> (p + 1 \<le> start + int i \<and> d dvd (start + int i))))"
        using "1.prems" by (intro "1.IH"(2) [OF True ndp]) simp_all
      then obtain ip' where res: "sieve_window (p + 1) e d start ip = Inr ip'"
        and len: "length ip' = length ip"
        and nth: "\<And>i. i < length ip \<Longrightarrow>
                  ip' ! i = (ip ! i \<and> \<not> (p + 1 \<le> start + int i \<and> d dvd (start + int i)))"
        by auto
      have "ip' ! i = (ip ! i \<and> \<not> (p \<le> start + int i \<and> d dvd (start + int i)))"
        if i: "i < length ip" for i
      proof -
        have "(p \<le> start + int i \<and> d dvd (start + int i))
              \<longleftrightarrow> (p + 1 \<le> start + int i \<and> d dvd (start + int i))"
          using ndvd_p by (cases "start + int i = p") auto
        then show ?thesis
          using nth [OF i] by simp
      qed
      then show ?thesis
        using step res len by simp
    qed
  qed
qed

lemma sieve_spec:
  assumes "0 < d0" and "length ip = nat (end - start + 1)"
  shows "\<exists>ip'. sieve d0 stop start end ip = Inr ip' \<and> length ip' = length ip
           \<and> (\<forall>i < length ip.
                 ip' ! i = (ip ! i \<and> \<not> (\<exists>d. d0 \<le> d \<and> d < stop \<and> d dvd (start + int i))))"
  using assms
proof (induction d0 stop start "end" ip rule: sieve.induct)
  case (1 d0 stop start e ip)
  show ?case
  proof (cases "d0 < stop")
    case False
    then have "sieve d0 stop start e ip = Inr ip"
      by (subst sieve.simps) simp
    then show ?thesis
      using False by auto
  next
    case True
    obtain ip1 where sw: "sieve_window start e d0 start ip = Inr ip1"
      and len1: "length ip1 = length ip"
      and nth1: "\<And>i. i < length ip \<Longrightarrow> ip1 ! i = (ip ! i \<and> \<not> d0 dvd (start + int i))"
      using sieve_window_spec [OF "1.prems"(1) order_refl "1.prems"(2)] by auto
    have step: "sieve d0 stop start e ip = sieve (d0 + 1) stop start e ip1"
      using True by (subst sieve.simps) (simp add: sw)
    have "\<exists>ip'. sieve (d0 + 1) stop start e ip1 = Inr ip' \<and> length ip' = length ip1
           \<and> (\<forall>i < length ip1.
                 ip' ! i = (ip1 ! i \<and> \<not> (\<exists>d. d0 + 1 \<le> d \<and> d < stop \<and> d dvd (start + int i))))"
      using "1.prems" len1 by (intro "1.IH" [OF True sw]) simp_all
    then obtain ip' where res: "sieve (d0 + 1) stop start e ip1 = Inr ip'"
      and len: "length ip' = length ip"
      and nth: "\<And>i. i < length ip \<Longrightarrow>
                ip' ! i = (ip1 ! i \<and> \<not> (\<exists>d. d0 + 1 \<le> d \<and> d < stop \<and> d dvd (start + int i)))"
      using len1 by auto
    have "ip' ! i = (ip ! i \<and> \<not> (\<exists>d. d0 \<le> d \<and> d < stop \<and> d dvd (start + int i)))"
      if i: "i < length ip" for i
    proof -
      have "(\<exists>d. d0 \<le> d \<and> d < stop \<and> d dvd (start + int i))
            \<longleftrightarrow> (d0 dvd (start + int i) \<or> (\<exists>d. d0 + 1 \<le> d \<and> d < stop \<and> d dvd (start + int i)))"
      proof
        assume "\<exists>d. d0 \<le> d \<and> d < stop \<and> d dvd (start + int i)"
        then obtain d where d: "d0 \<le> d" "d < stop" "d dvd (start + int i)"
          by blast
        show "d0 dvd (start + int i) \<or> (\<exists>d. d0 + 1 \<le> d \<and> d < stop \<and> d dvd (start + int i))"
        proof (cases "d = d0")
          case True
          with d show ?thesis by simp
        next
          case False
          with d have "d0 + 1 \<le> d" by simp
          with d show ?thesis by blast
        qed
      next
        assume "d0 dvd (start + int i) \<or> (\<exists>d. d0 + 1 \<le> d \<and> d < stop \<and> d dvd (start + int i))"
        then show "\<exists>d. d0 \<le> d \<and> d < stop \<and> d dvd (start + int i)"
        proof
          assume "d0 dvd (start + int i)"
          with True show ?thesis by blast
        next
          assume "\<exists>d. d0 + 1 \<le> d \<and> d < stop \<and> d dvd (start + int i)"
          then obtain d where "d0 + 1 \<le> d" "d < stop" "d dvd (start + int i)"
            by blast
          then have "d0 \<le> d \<and> d < stop \<and> d dvd (start + int i)"
            by simp
          then show ?thesis ..
        qed
      qed
      then show ?thesis
        using nth [OF i] nth1 [OF i] by blast
    qed
    then show ?thesis
      using step res len by simp
  qed
qed


subsection \<open>One round of the prime search\<close>


lemma sieve_replicate:
  "\<exists>ip'. sieve 2 stop start end (replicate (nat (end - start + 1)) True) = Inr ip'
     \<and> length ip' = nat (end - start + 1)
     \<and> (\<forall>i < nat (end - start + 1).
           ip' ! i = (\<not> (\<exists>d. 2 \<le> d \<and> d < stop \<and> d dvd (start + int i))))"
  using sieve_spec [of 2 "replicate (nat (end - start + 1)) True" "end" start stop] by auto






subsection \<open>The prime generator\<close>






text \<open>
  Claim C10. In the marking loops of \<open>gen_prime\<close>, every trial divisor \<open>d\<close> that lies in
  the window from \<open>start\<close> to \<open>end\<close> is marked composite itself. As a consequence
  \<open>gen_prime 2 10\<close> returns 5 after one round for every first draw between 2 and 10: the
  primes 2, 3 and 7 are never returned.
\<close>

theorem sieve_self_marking:
  "(2 \<le> d \<and> d < stop \<and> start \<le> d \<and> d \<le> end
      \<and> sieve 2 stop start end (replicate (nat (end - start + 1)) True) = Inr is_prime'
    \<longrightarrow> getitem is_prime' (d - start) = Inr False)
   \<and> (2 \<le> m \<and> m \<le> 10 \<longrightarrow> gen_prime 2 10 (m # draws) = Some (Inr (5, draws)))"
proof (intro conjI impI)
  assume a: "2 \<le> d \<and> d < stop \<and> start \<le> d \<and> d \<le> end
      \<and> sieve 2 stop start end (replicate (nat (end - start + 1)) True) = Inr is_prime'"
  obtain ip' where sv: "sieve 2 stop start end (replicate (nat (end - start + 1)) True) = Inr ip'"
    and len: "length ip' = nat (end - start + 1)"
    and nth: "\<And>i. i < nat (end - start + 1) \<Longrightarrow>
                ip' ! i = (\<not> (\<exists>d. 2 \<le> d \<and> d < stop \<and> d dvd (start + int i)))"
    using sieve_replicate [of stop start "end"] by blast
  from a sv have eq: "is_prime' = ip'"
    by simp
  have i: "nat (d - start) < nat (end - start + 1)"
    using a by linarith
  have idx: "start + int (nat (d - start)) = d"
    using a by simp
  have "2 \<le> d \<and> d < stop \<and> d dvd d"
    using a by simp
  then have ex: "\<exists>d'. 2 \<le> d' \<and> d' < stop \<and> d' dvd d" ..
  have "ip' ! nat (d - start) = (\<not> (\<exists>d'. 2 \<le> d' \<and> d' < stop \<and> d' dvd d))"
    using nth [OF i] unfolding idx .
  with ex have "\<not> ip' ! nat (d - start)"
    by blast
  moreover have "getitem ip' (d - start) = Inr (ip' ! nat (d - start))"
    using a i len by (intro getitem_nth) linarith+
  ultimately show "getitem is_prime' (d - start) = Inr False"
    by (simp add: eq)
next
  assume m: "2 \<le> m \<and> m \<le> 10"
  have w: "window_prime 2 10 = Inr (Some 5)"
    by code_simp
  have "max 2 (m - 50) = 2" "min 10 (m + 50) = 10"
    using m by simp_all
  then show "gen_prime 2 10 (m # draws) = Some (Inr (5, draws))"
    by (simp add: gen_prime_def Let_def w)
qed

theorem sieve_self_marking_witness:
  "sieve 2 4 2 10 (replicate (nat (10 - 2 + 1)) True)
     = Inr [False, False, False, True, False, True, False, False, False]
   \<and> getitem [False, False, False, True, False, True, False, False, False] (3 - 2) = Inr False
   \<and> gen_prime 2 10 [7, 3] = Some (Inr (5, [3]))"
proof -
  have run: "sieve 2 4 2 10 (replicate (nat (10 - 2 + 1)) True)
     = Inr [False, False, False, True, False, True, False, False, False]"
    by code_simp
  show ?thesis
    using run
      sieve_self_marking [of 3 4 2 10 "[False, False, False, True, False, True, False, False, False]" 7 "[3]"]
    by simp
qed

subsection \<open>Factorisation by trial division\<close>






subsection \<open>The attack\<close>








subsection \<open>Key generation\<close>







text \<open>
  Claim C7. \<open>pow base exponent modulus\<close> is \<open>base ^ exponent mod modulus\<close> whenever the
  exponent is positive and the modulus is not zero (\<open>pow_correct\<close>). With exponent 0 the
  loop is not entered and the result is the 1 that \<^verbatim>\<open>ret\<close> starts with, not reduced: for
  modulus 1, \<open>pow 0 0 1\<close> is 1, where \<open>0 ^ 0 mod 1\<close> is 0. \<open>pow 4 13 497\<close> is 445.
\<close>

theorem pow_zero_exponent_unreduced:
  "pow 0 0 1 = Inr 1 \<and> (0::int) ^ nat 0 mod 1 = 0 \<and> pow 4 13 497 = Inr 445"
proof (intro conjI)
  show "pow 0 0 1 = Inr 1"
    by (rule pow_zero_exponent)
  show "(0::int) ^ nat 0 mod 1 = 0"
    by simp
  show "pow 4 13 497 = Inr 445"
    by code_simp
qed

end
